theory Spec2Isabelle
  imports Main
begin

section \<open>The notebook's factory and the Python it runs on\<close>

text \<open>
  The executable content of the notebook is
  \<^verbatim>\<open>
  from collections import namedtuple

  def namedtuple_defaults(typename, field_names, defaults):
      nt = namedtuple(typename, field_names)
      nt.__new__.__defaults__ = defaults
      return nt

  Location = namedtuple_defaults('Location', 'x y', (0,0))
  Site = namedtuple_defaults('Site', 'owner strength production', (0,0,0))
  Move = namedtuple_defaults('Move', 'loc direction', (0,0))
  \<close>
  Each of the three lines of the function body is a step of Python itself:
  \<^verbatim>\<open>collections.namedtuple\<close> validates the names and creates a class whose
  \<^verbatim>\<open>__new__(_cls, f1, ..., fn)\<close> is an ordinary function, the assignment runs the
  setter of a function's \<^verbatim>\<open>__defaults__\<close>, and calling the returned class binds the
  call's arguments to the parameters of \<^verbatim>\<open>__new__\<close>. The embedding follows these
  three steps as CPython performs them (the notebook's kernel is Python 3.5.2): the
  validation loops of \<^verbatim>\<open>namedtuple\<close>, the setter \<^verbatim>\<open>func_set_defaults\<close> and the
  argument binding of the interpreter. Of the generated class it keeps what the calls
  above depend on: its name, its fields and the defaults of its \<^verbatim>\<open>__new__\<close>.
\<close>

subsection \<open>Values, errors\<close>

text \<open>
  The Python values that occur as defaults and field values. \<open>PyType a\<close> is a reference
  to the class object stored at address \<open>a\<close>. Structural equality of this datatype is
  Python's \<^verbatim>\<open>==\<close> on these values.
\<close>

datatype pyobj =
    PyNone
  | PyInt int
  | PyStr string
  | PyTuple "pyobj list"
  | PyList "pyobj list"
  | PyType nat

text \<open>
  Every exception the modelled code can raise, one constructor for each \<^verbatim>\<open>raise\<close>
  or C-level error site. The first four are the \<^verbatim>\<open>ValueError\<close>s of
  \<^verbatim>\<open>namedtuple\<close>, the next six are \<^verbatim>\<open>TypeError\<close>s (the too-many-positional one
  carries the numbers of parameters and of arguments, the missing-argument one the
  names of the missing parameters). \<open>Dangling_reference\<close> is no Python exception: it
  marks an address that holds no class object, which a Python program cannot have.
\<close>

datatype error =
    ValueError_not_identifier string
  | ValueError_keyword string
  | ValueError_underscore string
  | ValueError_duplicate string
  | TypeError_defaults_not_tuple
  | TypeError_unexpected_keyword string
  | TypeError_multiple_values string
  | TypeError_too_many_positional nat nat
  | TypeError_missing_arguments "string list"
  | TypeError_not_a_type
  | UnboundLocalError
  | Dangling_reference nat

text \<open>
  The \<^verbatim>\<open>field_names\<close> argument: a single \<^verbatim>\<open>str\<close>, or a list or tuple of
  \<^verbatim>\<open>str\<close> (\<^verbatim>\<open>namedtuple\<close> only iterates over it). Strings are ASCII: for
  code points above 127 CPython consults the Unicode database, which is outside this
  development, and the predicates below treat them as neither white space nor
  identifier characters.
\<close>

datatype names_arg = NamesStr string | NamesSeq "string list"

subsection \<open>String methods used by namedtuple\<close>

definition isspace :: "char \<Rightarrow> bool" where
  \<comment> \<open>ASCII white space of \<^verbatim>\<open>str.split()\<close>: 0x09-0x0D, 0x1C-0x1F and the blank\<close>
  "isspace c \<longleftrightarrow> c \<in> set [CHR 0x09, CHR 0x0A, CHR 0x0B, CHR 0x0C, CHR 0x0D,
                            CHR 0x1C, CHR 0x1D, CHR 0x1E, CHR 0x1F, CHR 0x20]"

definition replace_commas :: "string \<Rightarrow> string" where
  \<comment> \<open>\<^verbatim>\<open>s.replace(',', ' ')\<close>\<close>
  "replace_commas s = map (\<lambda>c. if c = CHR '','' then CHR '' '' else c) s"

text \<open>
  \<^verbatim>\<open>s.split()\<close>: skip white space, stop at the end, otherwise cut the word that runs
  to the next white space and go on behind it.
\<close>

function split :: "string \<Rightarrow> string list" where
  "split s =
     (let s1 = dropWhile isspace s
      in if s1 = [] then []
         else takeWhile (\<lambda>c. \<not> isspace c) s1 # split (dropWhile (\<lambda>c. \<not> isspace c) s1))"
  by pat_completeness auto
termination
proof (relation "measure length")
  show "wf (measure length)" by simp
next
  fix s s1 :: string
  assume s1: "s1 = dropWhile isspace s" and ne: "s1 \<noteq> []"
  from ne obtain c cs where cs: "s1 = c # cs" by (cases s1) auto
  with s1 have "\<not> isspace c" by (metis hd_dropWhile list.sel(1) ne)
  with cs have "length (dropWhile (\<lambda>c. \<not> isspace c) s1) \<le> length cs"
    by (simp add: length_dropWhile_le)
  also have "length cs < length s1" using cs by simp
  also have "length s1 \<le> length s" using s1 by (simp add: length_dropWhile_le)
  finally show "(dropWhile (\<lambda>c. \<not> isspace c) s1, s) \<in> measure length" by simp
qed

declare split.simps [simp del]

definition ident_start :: "char \<Rightarrow> bool" where
  "ident_start c \<longleftrightarrow> c \<in> set ''ABCDEFGHIJKLMNOPQRSTUVWXYZ_abcdefghijklmnopqrstuvwxyz''"

definition ident_continue :: "char \<Rightarrow> bool" where
  "ident_continue c \<longleftrightarrow> ident_start c \<or> c \<in> set ''0123456789''"

definition isidentifier :: "string \<Rightarrow> bool" where
  \<comment> \<open>\<^verbatim>\<open>name.isidentifier()\<close> on ASCII\<close>
  "isidentifier s = (case s of [] \<Rightarrow> False | c # cs \<Rightarrow> ident_start c \<and> list_all ident_continue cs)"

definition kwlist :: "string list" where
  \<comment> \<open>\<^verbatim>\<open>keyword.kwlist\<close> of Python 3.5\<close>
  "kwlist = [''False'', ''None'', ''True'', ''and'', ''as'', ''assert'', ''break'', ''class'',
     ''continue'', ''def'', ''del'', ''elif'', ''else'', ''except'', ''finally'', ''for'',
     ''from'', ''global'', ''if'', ''import'', ''in'', ''is'', ''lambda'', ''nonlocal'',
     ''not'', ''or'', ''pass'', ''raise'', ''return'', ''try'', ''while'', ''with'', ''yield'']"

definition iskeyword :: "string \<Rightarrow> bool" where
  "iskeyword s \<longleftrightarrow> s \<in> set kwlist"

definition startswith_underscore :: "string \<Rightarrow> bool" where
  \<comment> \<open>\<^verbatim>\<open>name.startswith('_')\<close>\<close>
  "startswith_underscore s = (case s of [] \<Rightarrow> False | c # _ \<Rightarrow> c = CHR ''_'')"

subsection \<open>collections.namedtuple\<close>

text \<open>
  \<^verbatim>\<open>
  if isinstance(field_names, str):
      field_names = field_names.replace(',', ' ').split()
  field_names = list(map(str, field_names))
  \<close>
\<close>

fun field_list :: "names_arg \<Rightarrow> string list" where
  "field_list (NamesStr s) = split (replace_commas s)"
| "field_list (NamesSeq ns) = ns"

text \<open>
  \<^verbatim>\<open>
  for name in [typename] + field_names:
      if not name.isidentifier(): raise ValueError(...)
      if _iskeyword(name): raise ValueError(...)
  \<close>
\<close>

fun check_identifiers :: "string list \<Rightarrow> error option" where
  "check_identifiers [] = None"
| "check_identifiers (name # names) =
     (if \<not> isidentifier name then Some (ValueError_not_identifier name)
      else if iskeyword name then Some (ValueError_keyword name)
      else check_identifiers names)"

text \<open>
  \<^verbatim>\<open>
  seen = set()
  for name in field_names:
      if name.startswith('_') and not rename: raise ValueError(...)
      if name in seen: raise ValueError(...)
      seen.add(name)
  \<close>
\<close>

fun check_fields :: "string list \<Rightarrow> string list \<Rightarrow> error option" where
  "check_fields seen [] = None"
| "check_fields seen (name # names) =
     (if startswith_underscore name then Some (ValueError_underscore name)
      else if name \<in> set seen then Some (ValueError_duplicate name)
      else check_fields (name # seen) names)"

definition validate :: "string \<Rightarrow> string list \<Rightarrow> error option" where
  "validate typename names =
     (case check_identifiers (typename # names) of
        Some e \<Rightarrow> Some e
      | None \<Rightarrow> check_fields [] names)"

text \<open>
  The class object that \<^verbatim>\<open>namedtuple\<close> creates: its name, its \<^verbatim>\<open>_fields\<close>, and
  the \<^verbatim>\<open>__defaults__\<close> of its \<^verbatim>\<open>__new__\<close> function (\<open>None\<close> is Python's
  \<^verbatim>\<open>None\<close>: no defaults). Class objects live in a store; every execution of the
  class statement allocates a new one, here at the next free address.
\<close>

record pyclass =
  cls_name :: string
  cls_fields :: "string list"
  new_defaults :: "pyobj list option"

type_synonym store = "pyclass list"

definition namedtuple :: "string \<Rightarrow> names_arg \<Rightarrow> store \<Rightarrow> (error + nat) \<times> store" where
  "namedtuple typename field_names h =
     (let names = field_list field_names
      in case validate typename names of
           Some e \<Rightarrow> (Inl e, h)
         | None \<Rightarrow> (Inr (length h),
                    h @ [\<lparr>cls_name = typename, cls_fields = names, new_defaults = None\<rparr>]))"

subsection \<open>Assigning a function's defaults\<close>

text \<open>
  The setter of \<^verbatim>\<open>__defaults__\<close> (\<^verbatim>\<open>func_set_defaults\<close>): \<^verbatim>\<open>None\<close> removes the
  defaults, a tuple is stored as it is, whatever its length, and anything else raises
  \<^verbatim>\<open>TypeError: __defaults__ must be set to a tuple object\<close>.
\<close>

definition set_new_defaults :: "nat \<Rightarrow> pyobj \<Rightarrow> store \<Rightarrow> (error + unit) \<times> store" where
  "set_new_defaults a defaults h =
     (if \<not> a < length h then (Inl (Dangling_reference a), h)
      else case defaults of
             PyNone \<Rightarrow> (Inr (), h[a := (h ! a)\<lparr>new_defaults := None\<rparr>])
           | PyTuple ds \<Rightarrow> (Inr (), h[a := (h ! a)\<lparr>new_defaults := Some ds\<rparr>])
           | _ \<Rightarrow> (Inl TypeError_defaults_not_tuple, h))"

subsection \<open>The factory\<close>

definition namedtuple_defaults ::
  "string \<Rightarrow> names_arg \<Rightarrow> pyobj \<Rightarrow> store \<Rightarrow> (error + nat) \<times> store" where
  "namedtuple_defaults typename field_names defaults h =
     (case namedtuple typename field_names h of
        (Inl e, h1) \<Rightarrow> (Inl e, h1)
      | (Inr nt, h1) \<Rightarrow>
          (case set_new_defaults nt defaults h1 of
             (Inl e, h2) \<Rightarrow> (Inl e, h2)
           | (Inr _, h2) \<Rightarrow> (Inr nt, h2)))"

subsection \<open>Calling the class: argument binding\<close>

text \<open>
  \<^verbatim>\<open>nt(*args, **kwargs)\<close> calls \<^verbatim>\<open>nt.__new__(nt, *args, **kwargs)\<close>, a function
  with the parameters \<^verbatim>\<open>_cls, f1, ..., fn\<close>, no \<^verbatim>\<open>*args\<close>, no \<^verbatim>\<open>**kwargs\<close>
  and no keyword-only parameters. The interpreter fills the frame's local slots from
  the call (\<^verbatim>\<open>_PyEval_EvalCodeWithName\<close>): a slot is \<open>None\<close> while it is unset.
\<close>

type_synonym locals = "pyobj option list"

fun find_name :: "string \<Rightarrow> string list \<Rightarrow> nat option" where
  \<comment> \<open>the first index of a keyword among \<^verbatim>\<open>co_varnames\<close>\<close>
  "find_name k [] = None"
| "find_name k (n # ns) = (if k = n then Some 0 else map_option Suc (find_name k ns))"

text \<open>
  The keyword loop: an unknown keyword and a keyword for a slot that is already set
  both stop the call.
\<close>

fun bind_keywords :: "string list \<Rightarrow> locals \<Rightarrow> (string \<times> pyobj) list \<Rightarrow> error + locals" where
  "bind_keywords varnames ls [] = Inr ls"
| "bind_keywords varnames ls ((k, v) # kws) =
     (case find_name k varnames of
        None \<Rightarrow> Inl (TypeError_unexpected_keyword k)
      | Some j \<Rightarrow>
          (if ls ! j \<noteq> None then Inl (TypeError_multiple_values k)
           else bind_keywords varnames (ls[j := Some v]) kws))"

text \<open>
  \<^verbatim>\<open>
  for (; i < defcount; i++)
      if (GETLOCAL(m+i) == NULL) SETLOCAL(m+i, defs[i]);
  \<close>
  with \<open>m = co_argcount - defcount\<close>, which is negative when there are more defaults
  than parameters.
\<close>

fun fill_defaults :: "int \<Rightarrow> pyobj list \<Rightarrow> nat list \<Rightarrow> locals \<Rightarrow> locals" where
  "fill_defaults m defs [] ls = ls"
| "fill_defaults m defs (i # is) ls =
     (let j = nat (m + int i)
      in fill_defaults m defs is (if ls ! j = None then ls[j := Some (defs ! i)] else ls))"

text \<open>
  The binding as a whole, for a function without \<^verbatim>\<open>*args\<close>, \<^verbatim>\<open>**kwargs\<close> and
  keyword-only parameters:
  \<^verbatim>\<open>
  n = argcount > co_argcount ? co_argcount : argcount;
  for (i = 0; i < n; i++) SETLOCAL(i, args[i]);
  /* the keyword loop */
  if (argcount > co_argcount) { too_many_positional(...); goto fail; }
  if (argcount < co_argcount) {
      m = co_argcount - defcount;
      for (i = argcount; i < m; i++)
          if (GETLOCAL(i) == NULL) missing++;
      if (missing) { missing_arguments(...); goto fail; }
      i = n > m ? n - m : 0;
      /* the loop over the defaults */
  }
  \<close>
  The positional arguments fill the first slots, the keywords are bound, surplus
  positional arguments are refused, every parameter before the first defaulted one must
  be set by now, and the defaults fill what is still unset.
\<close>

definition bind_args ::
  "string list \<Rightarrow> pyobj list \<Rightarrow> pyobj list \<Rightarrow> (string \<times> pyobj) list \<Rightarrow> error + locals" where
  "bind_args varnames defs args kws =
     (let co_argcount = length varnames;
          argcount = length args;
          defcount = length defs;
          n = (if argcount > co_argcount then co_argcount else argcount);
          ls0 = map Some (take n args) @ replicate (co_argcount - n) None
      in case bind_keywords varnames ls0 kws of
           Inl e \<Rightarrow> Inl e
         | Inr ls1 \<Rightarrow>
             if argcount > co_argcount
             then Inl (TypeError_too_many_positional co_argcount argcount)
             else if argcount < co_argcount then
               (let m = int co_argcount - int defcount;
                    missing = filter (\<lambda>i. ls1 ! i = None) [argcount ..< nat m]
                in if missing \<noteq> []
                   then Inl (TypeError_missing_arguments (map (\<lambda>i. varnames ! i) missing))
                   else Inr (fill_defaults m defs
                               [(if int n > m then nat (int n - m) else 0) ..< defcount] ls1))
             else Inr ls1)"

subsection \<open>Instances\<close>

text \<open>
  An instance is a tuple of the class: the class it belongs to and one value for each
  field, in field order.
\<close>

datatype pyinstance = Instance (inst_type: nat) (inst_values: "pyobj list")

definition tuple_new :: "pyobj \<Rightarrow> pyobj list \<Rightarrow> error + pyinstance" where
  \<comment> \<open>\<^verbatim>\<open>_tuple.__new__(_cls, (f1, ..., fn))\<close>\<close>
  "tuple_new cls vs = (case cls of PyType a \<Rightarrow> Inr (Instance a vs) | _ \<Rightarrow> Inl TypeError_not_a_type)"

definition defaults_list :: "pyobj list option \<Rightarrow> pyobj list" where
  "defaults_list d = (case d of None \<Rightarrow> [] | Some ds \<Rightarrow> ds)"

text \<open>
  The generated \<^verbatim>\<open>__new__\<close>: bind the arguments, then read the locals (reading an
  unset local would raise \<^verbatim>\<open>UnboundLocalError\<close>) and build the tuple.
\<close>

definition nt_new :: "pyclass \<Rightarrow> pyobj list \<Rightarrow> (string \<times> pyobj) list \<Rightarrow> error + pyinstance" where
  "nt_new c args kws =
     (case bind_args (''_cls'' # cls_fields c) (defaults_list (new_defaults c)) args kws of
        Inl e \<Rightarrow> Inl e
      | Inr ls \<Rightarrow>
          (case those ls of
             None \<Rightarrow> Inl UnboundLocalError
           | Some [] \<Rightarrow> Inl UnboundLocalError
           | Some (cls # vs) \<Rightarrow> tuple_new cls vs))"

text \<open>\<^verbatim>\<open>nt(*args, **kwargs)\<close> for the class stored at \<open>a\<close>.\<close>

definition call_type ::
  "store \<Rightarrow> nat \<Rightarrow> pyobj list \<Rightarrow> (string \<times> pyobj) list \<Rightarrow> error + pyinstance" where
  "call_type h a args kws =
     (if a < length h then nt_new (h ! a) (PyType a # args) kws
      else Inl (Dangling_reference a))"

text \<open>
  Reading a field by name: each field is a \<^verbatim>\<open>property(itemgetter(index))\<close> of the
  class. \<open>None\<close> when the name is not a field of the instance's class.
\<close>

definition get_field :: "store \<Rightarrow> pyinstance \<Rightarrow> string \<Rightarrow> pyobj option" where
  "get_field h inst name =
     (if inst_type inst < length h
      then (case find_name name (cls_fields (h ! inst_type inst)) of
              None \<Rightarrow> None
            | Some i \<Rightarrow> if i < length (inst_values inst) then Some (inst_values inst ! i) else None)
      else None)"


subsection \<open>The notebook's final cell\<close>

text \<open>
  \<^verbatim>\<open>Location = namedtuple_defaults('Location', 'x y', (0,0))\<close>, run in an empty store:
  the outcome of the call and the store it leaves.
\<close>

definition Location :: "(error + nat) \<times> store" where
  "Location = namedtuple_defaults ''Location'' (NamesStr ''x y'') (PyTuple [PyInt 0, PyInt 0]) []"

section \<open>Notions of the specification\<close>

text \<open>
  The names the record primitive accepts: the type name and every field name is an
  identifier and no keyword, no field name starts with an underscore, no field name
  occurs twice.
\<close>

definition valid_names :: "string \<Rightarrow> string list \<Rightarrow> bool" where
  "valid_names typename names \<longleftrightarrow>
     isidentifier typename \<and> \<not> iskeyword typename \<and>
     list_all (\<lambda>n. isidentifier n \<and> \<not> iskeyword n \<and> \<not> startswith_underscore n) names \<and>
     distinct names"

text \<open>
  The value the specification expects in field \<open>j\<close> of an instance: the positional
  argument when there is one, else the keyword argument of that name when there is
  one, else the default aligned to the right end of the field list.
\<close>

definition expected_value ::
  "pyobj list \<Rightarrow> (string \<times> pyobj) list \<Rightarrow> pyobj list \<Rightarrow> string list \<Rightarrow> nat \<Rightarrow> pyobj" where
  "expected_value args kws defs flds j =
     (if j < length args then args ! j
      else case map_of kws (flds ! j) of
             Some v \<Rightarrow> v
           | None \<Rightarrow> defs ! (j + length defs - length flds))"

text \<open>
  A delimiter of the single-string form of \<^verbatim>\<open>field_names\<close> is white space or a
  comma; \<open>join sep names\<close> is Python's \<^verbatim>\<open>sep.join(names)\<close>.
\<close>

definition is_delim :: "char \<Rightarrow> bool" where
  "is_delim c \<longleftrightarrow> isspace c \<or> c = CHR '',''"

fun join :: "string \<Rightarrow> string list \<Rightarrow> string" where
  "join sep [] = []"
| "join sep [n] = n"
| "join sep (n # m # ns) = n @ sep @ join sep (m # ns)"

section \<open>Properties of the model\<close>

subsection \<open>Binding keywords\<close>

lemma find_name_Some: "find_name k vn = Some j \<Longrightarrow> j < length vn \<and> vn ! j = k"
  by (induction vn arbitrary: j) (auto split: if_splits)

lemma find_name_None: "find_name k vn = None \<longleftrightarrow> k \<notin> set vn"
  by (induction vn) auto

lemma find_name_nth: "distinct vn \<Longrightarrow> J < length vn \<Longrightarrow> find_name (vn ! J) vn = Some J"
proof (induction vn arbitrary: J)
  case Nil
  then show ?case by simp
next
  case (Cons n ns)
  show ?case
  proof (cases J)
    case 0
    then show ?thesis by simp
  next
    case (Suc J')
    with Cons.prems have "ns ! J' \<noteq> n" "find_name (ns ! J') ns = Some J'"
      using Cons.IH [of J'] by auto
    with Suc show ?thesis by simp
  qed
qed

lemma bind_keywords_length: "bind_keywords vn ls kws = Inr ls' \<Longrightarrow> length ls' = length ls"
  by (induction kws arbitrary: ls) (auto split: option.splits if_splits)


lemma bind_keywords_fresh:
  "bind_keywords vn ls kws = Inr ls' \<Longrightarrow> find_name k vn = Some j \<Longrightarrow> j < length ls \<Longrightarrow>
   ls ! j \<noteq> None \<Longrightarrow> k \<notin> fst ` set kws"
proof (induction kws arbitrary: ls)
  case Nil
  then show ?case by simp
next
  case (Cons kv kws)
  obtain k' v where kv: "kv = (k', v)" by (cases kv)
  from Cons.prems(1) kv obtain j' where j': "find_name k' vn = Some j'" and unset: "ls ! j' = None"
    and rec: "bind_keywords vn (ls[j' := Some v]) kws = Inr ls'"
    by (auto split: option.splits if_splits)
  from j' unset Cons.prems(2,4) have "k' \<noteq> k" by auto
  moreover have "(ls[j' := Some v]) ! j \<noteq> None"
    using Cons.prems(3,4) by (cases "j' = j") auto
  then have "k \<notin> fst ` set kws"
    using Cons.IH [OF rec Cons.prems(2)] Cons.prems(3) by simp
  ultimately show ?case using kv by simp
qed

lemma bind_keywords_value:
  "bind_keywords vn ls kws = Inr ls' \<Longrightarrow> length ls = length vn \<Longrightarrow> distinct vn \<Longrightarrow>
   J < length vn \<Longrightarrow>
   ls' ! J = (case map_of kws (vn ! J) of Some v \<Rightarrow> Some v | None \<Rightarrow> ls ! J)"
proof (induction kws arbitrary: ls)
  case Nil
  then show ?case by simp
next
  case (Cons kv kws)
  obtain k v where kv: "kv = (k, v)" by (cases kv)
  from Cons.prems(1) kv obtain j where j: "find_name k vn = Some j" and unset: "ls ! j = None"
    and rec: "bind_keywords vn (ls[j := Some v]) kws = Inr ls'"
    by (auto split: option.splits if_splits)
  from j have jlt: "j < length vn" and vj: "vn ! j = k" by (simp_all add: find_name_Some)
  have len: "length (ls[j := Some v]) = length vn" using Cons.prems(2) by simp
  note IH = Cons.IH [OF rec len Cons.prems(3,4)]
  show ?case
  proof (cases "vn ! J = k")
    case True
    with vj jlt Cons.prems(3,4) have "J = j" by (metis nth_eq_iff_index_eq)
    have "(ls[j := Some v]) ! j \<noteq> None" using jlt Cons.prems(2) by simp
    then have "k \<notin> fst ` set kws"
      using bind_keywords_fresh [OF rec j] jlt Cons.prems(2) by simp
    then have "map_of kws k = None" by (simp add: map_of_eq_None_iff)
    with IH True \<open>J = j\<close> jlt Cons.prems(2) kv show ?thesis by simp
  next
    case False
    with vj have "J \<noteq> j" by auto
    then have "(ls[j := Some v]) ! J = ls ! J" by simp
    with IH False kv show ?thesis by (simp split: option.splits)
  qed
qed

lemma bind_keywords_succeeds:
  "length ls = length vn \<Longrightarrow> distinct (map fst kws) \<Longrightarrow>
   (\<And>k. k \<in> fst ` set kws \<Longrightarrow> \<exists>j. find_name k vn = Some j \<and> ls ! j = None) \<Longrightarrow>
   \<exists>ls'. bind_keywords vn ls kws = Inr ls'"
proof (induction kws arbitrary: ls)
  case Nil
  then show ?case by simp
next
  case (Cons kv kws)
  obtain k v where kv: "kv = (k, v)" by (cases kv)
  from Cons.prems(3) [of k] kv obtain j where j: "find_name k vn = Some j" and unset: "ls ! j = None"
    by auto
  have "\<exists>ls'. bind_keywords vn (ls[j := Some v]) kws = Inr ls'"
  proof (rule Cons.IH)
    show "length (ls[j := Some v]) = length vn" using Cons.prems(1) by simp
    show "distinct (map fst kws)" using Cons.prems(2) by simp
    fix k' assume k': "k' \<in> fst ` set kws"
    with Cons.prems(3) [of k'] obtain j' where j': "find_name k' vn = Some j'" "ls ! j' = None"
      by auto
    from k' Cons.prems(2) kv have "k' \<noteq> k" by auto
    with j j' have "j' \<noteq> j" using find_name_Some by blast
    with j' show "\<exists>i. find_name k' vn = Some i \<and> (ls[j := Some v]) ! i = None" by simp
  qed
  with j unset kv show ?case by simp
qed

subsection \<open>Filling in the defaults\<close>

lemma fill_defaults_length: "length (fill_defaults m defs is ls) = length ls"
  by (induction "is" arbitrary: ls) (simp_all add: Let_def)

lemma fill_defaults_nth:
  "(\<And>i. i \<in> set is \<Longrightarrow> 0 \<le> m + int i) \<Longrightarrow> J < length ls \<Longrightarrow>
   fill_defaults m defs is ls ! J =
     (if ls ! J = None \<and> (\<exists>i \<in> set is. nat (m + int i) = J)
      then Some (defs ! nat (int J - m)) else ls ! J)"
proof (induction "is" arbitrary: ls)
  case Nil
  then show ?case by simp
next
  case (Cons i "is")
  define j where "j = nat (m + int i)"
  define ls2 where "ls2 = (if ls ! j = None then ls[j := Some (defs ! i)] else ls)"
  have step: "fill_defaults m defs (i # is) ls = fill_defaults m defs is ls2"
    by (simp add: j_def ls2_def Let_def)
  have len2: "J < length ls2" using Cons.prems(2) by (simp add: ls2_def)
  have nonneg: "\<And>i'. i' \<in> set is \<Longrightarrow> 0 \<le> m + int i'" using Cons.prems(1) by simp
  have i0: "0 \<le> m + int i" using Cons.prems(1) by simp
  note IH = Cons.IH [OF nonneg len2]
  show ?case
  proof (cases "J = j")
    case True
    then have idx: "nat (int J - m) = i" using i0 by (simp add: j_def)
    show ?thesis
    proof (cases "ls ! J = None")
      case True
      with \<open>J = j\<close> Cons.prems(2) have "ls2 ! J = Some (defs ! i)" by (simp add: ls2_def)
      with IH have "fill_defaults m defs is ls2 ! J = Some (defs ! i)" by simp
      with step True idx \<open>J = j\<close> show ?thesis by (auto simp: j_def)
    next
      case False
      then have "ls ! j \<noteq> None" using \<open>J = j\<close> by simp
      then have "ls2 = ls" by (auto simp: ls2_def)
      with IH False step show ?thesis by simp
    qed
  next
    case False
    then have "ls2 ! J = ls ! J" by (simp add: ls2_def)
    with IH step False show ?thesis by (auto simp: j_def)
  qed
qed


subsection \<open>The bound frame\<close>

lemma bind_args_slots:
  assumes ok: "bind_args vn defs args kws = Inr ls" and dist: "distinct vn"
  shows "length ls = length vn"
    and "length args \<le> length vn"
    and "J < length vn \<Longrightarrow>
         ls ! J = Some (if J < length args then args ! J
                        else case map_of kws (vn ! J) of
                               Some v \<Rightarrow> v
                             | None \<Rightarrow> defs ! nat (int J - (int (length vn) - int (length defs))))"
proof -
  define N where "N = length vn"
  define m where "m = int N - int (length defs)"
  define ls0 where "ls0 = map Some args @ replicate (N - length args) (None :: pyobj option)"
  from ok have le: "length args \<le> N"
    unfolding bind_args_def N_def by (auto simp: Let_def split: sum.splits if_splits)
  then have take: "(if length args > N then N else length args) = length args" by simp
  from ok le obtain ls1 where kw: "bind_keywords vn ls0 kws = Inr ls1"
    unfolding bind_args_def N_def ls0_def by (auto simp: Let_def split: sum.splits if_splits)
  have len0: "length ls0 = length vn" using le by (simp add: ls0_def N_def)
  have len1: "length ls1 = length vn" using bind_keywords_length [OF kw] len0 by simp
  have slot1: "ls1 ! K = (if K < length args then Some (args ! K)
                          else case map_of kws (vn ! K) of Some v \<Rightarrow> Some v | None \<Rightarrow> None)"
    if K: "K < length vn" for K
  proof (cases "K < length args")
    case True
    then have s0: "ls0 ! K = Some (args ! K)" by (simp add: ls0_def nth_append)
    have "find_name (vn ! K) vn = Some K" using dist K by (rule find_name_nth)
    from bind_keywords_fresh [OF kw this] s0 K len0 have "vn ! K \<notin> fst ` set kws" by simp
    then have "map_of kws (vn ! K) = None" by (simp add: map_of_eq_None_iff)
    with bind_keywords_value [OF kw len0 dist K] s0 True show ?thesis by simp
  next
    case False
    with K le have "ls0 ! K = None" by (simp add: ls0_def nth_append N_def)
    with bind_keywords_value [OF kw len0 dist K] False show ?thesis
      by (simp split: option.splits)
  qed
  show "length args \<le> length vn" using le by (simp add: N_def)
  consider (eq) "length args = N" | (lt) "length args < N" using le by linarith
  then have "length ls = length vn \<and> (J < length vn \<longrightarrow>
         ls ! J = Some (if J < length args then args ! J
                        else case map_of kws (vn ! J) of
                               Some v \<Rightarrow> v
                             | None \<Rightarrow> defs ! nat (int J - (int (length vn) - int (length defs)))))"
  proof cases
    case eq
    with ok kw have "ls = ls1"
      unfolding bind_args_def N_def ls0_def by (simp add: Let_def)
    with len1 slot1 [of J] eq show ?thesis by (simp add: N_def)
  next
    case lt
    define i0 where "i0 = (if int (length args) > m then nat (int (length args) - m) else 0)"
    from ok kw lt have nomiss: "filter (\<lambda>i. ls1 ! i = None) [length args ..< nat m] = []"
      and res: "ls = fill_defaults m defs [i0 ..< length defs] ls1"
      unfolding bind_args_def N_def ls0_def m_def i0_def
      by (auto simp: Let_def split: if_splits)
    have nonneg: "0 \<le> m + int i" if "i \<in> set [i0 ..< length defs]" for i
      using that by (auto simp: i0_def split: if_splits)
    have len: "length ls = length vn" using res len1 by (simp add: fill_defaults_length)
    have "ls ! J = Some (if J < length args then args ! J
                        else case map_of kws (vn ! J) of
                               Some v \<Rightarrow> v
                             | None \<Rightarrow> defs ! nat (int J - m))" if J: "J < length vn"
    proof (cases "ls1 ! J = None")
      case True
      with slot1 [OF J] have ge: "length args \<le> J" and nokey: "map_of kws (vn ! J) = None"
        by (auto split: if_splits option.splits)
      from nomiss have "\<forall>i \<in> set [length args ..< nat m]. ls1 ! i \<noteq> None"
        unfolding filter_empty_conv by blast
      with True ge have "\<not> J < nat m" by fastforce
      then have mJ: "m \<le> int J" by linarith
      have "nat (int J - m) \<in> set [i0 ..< length defs]"
        using mJ ge J by (auto simp: i0_def m_def N_def)
      moreover have "nat (m + int (nat (int J - m))) = J" using mJ by simp
      ultimately have "\<exists>i \<in> set [i0 ..< length defs]. nat (m + int i) = J" by blast
      with fill_defaults_nth [of "[i0 ..< length defs]" m J ls1 defs] nonneg True J len1 res
      have "ls ! J = Some (defs ! nat (int J - m))" by simp
      with ge nokey show ?thesis by simp
    next
      case False
      with fill_defaults_nth [of "[i0 ..< length defs]" m J ls1 defs] nonneg J len1 res
      have "ls ! J = ls1 ! J" by simp
      with False slot1 [OF J] show ?thesis by (auto split: if_splits option.splits)
    qed
    with len show ?thesis unfolding m_def N_def by blast
  qed
  then show "length ls = length vn"
    and "J < length vn \<Longrightarrow>
         ls ! J = Some (if J < length args then args ! J
                        else case map_of kws (vn ! J) of
                               Some v \<Rightarrow> v
                             | None \<Rightarrow> defs ! nat (int J - (int (length vn) - int (length defs))))"
    by simp_all
qed

lemma bind_args_succeeds:
  assumes dist: "distinct vn"
    and le: "length args \<le> length vn"
    and keys: "distinct (map fst kws)"
    and known: "\<And>k. k \<in> fst ` set kws \<Longrightarrow> \<exists>J. length args \<le> J \<and> J < length vn \<and> vn ! J = k"
    and covered: "\<And>J. length args \<le> J \<Longrightarrow> J < length vn \<Longrightarrow> vn ! J \<notin> fst ` set kws \<Longrightarrow>
                    int (length vn) - int (length defs) \<le> int J"
  shows "\<exists>ls. bind_args vn defs args kws = Inr ls"
proof -
  define ls0 where "ls0 = map Some args @ replicate (length vn - length args) (None :: pyobj option)"
  have len0: "length ls0 = length vn" using le by (simp add: ls0_def)
  have "\<exists>ls1. bind_keywords vn ls0 kws = Inr ls1"
  proof (rule bind_keywords_succeeds [OF len0 keys])
    fix k assume "k \<in> fst ` set kws"
    from known [OF this] obtain J where J: "length args \<le> J" "J < length vn" "vn ! J = k" by blast
    then have "find_name k vn = Some J" using find_name_nth [OF dist] by blast
    moreover have "ls0 ! J = None" using J by (simp add: ls0_def nth_append)
    ultimately show "\<exists>j. find_name k vn = Some j \<and> ls0 ! j = None" by blast
  qed
  then obtain ls1 where kw: "bind_keywords vn ls0 kws = Inr ls1" by blast
  have "filter (\<lambda>i. ls1 ! i = None) [length args ..< nat (int (length vn) - int (length defs))] = []"
  proof -
    have "ls1 ! i \<noteq> None"
      if i: "length args \<le> i" "i < nat (int (length vn) - int (length defs))" for i
    proof -
      from i have lt: "i < length vn" by linarith
      from i have "\<not> int (length vn) - int (length defs) \<le> int i" by linarith
      with covered [OF i(1) lt] have "vn ! i \<in> fst ` set kws" by blast
      then obtain v where "map_of kws (vn ! i) = Some v"
        by (metis map_of_eq_None_iff not_Some_eq)
      with bind_keywords_value [OF kw len0 dist lt] show ?thesis by simp
    qed
    then show ?thesis by (auto simp: filter_empty_conv)
  qed
  with kw le show ?thesis
    unfolding bind_args_def ls0_def by (auto simp: Let_def)
qed

lemma those_map_Some: "those ls = Some xs \<Longrightarrow> ls = map Some xs"
  by (induction ls arbitrary: xs) (auto split: option.splits)

lemma those_all_Some: "(\<And>J. J < length ls \<Longrightarrow> ls ! J \<noteq> None) \<Longrightarrow> those ls = Some (map the ls)"
proof (induction ls)
  case Nil
  then show ?case by simp
next
  case (Cons x ls)
  from Cons.prems [of 0] obtain v where x: "x = Some v" by auto
  have "those ls = Some (map the ls)"
  proof (rule Cons.IH)
    fix J assume "J < length ls"
    with Cons.prems [of "Suc J"] show "ls ! J \<noteq> None" by simp
  qed
  with x show ?case by simp
qed


subsection \<open>Validation of the names\<close>

lemma check_identifiers_None:
  "check_identifiers names = None \<longleftrightarrow> list_all (\<lambda>n. isidentifier n \<and> \<not> iskeyword n) names"
  by (induction names) auto

lemma check_fields_None:
  "check_fields seen names = None \<longleftrightarrow>
     list_all (\<lambda>n. \<not> startswith_underscore n \<and> n \<notin> set seen) names \<and> distinct names"
  by (induction names arbitrary: seen) (auto simp: list_all_iff)

lemma validate_None: "validate typename names = None \<longleftrightarrow> valid_names typename names"
proof -
  have "validate typename names = None \<longleftrightarrow>
        check_identifiers (typename # names) = None \<and> check_fields [] names = None"
    by (cases "check_identifiers (typename # names)") (simp_all add: validate_def)
  also have "\<dots> \<longleftrightarrow> valid_names typename names"
    unfolding check_identifiers_None check_fields_None valid_names_def
    by (auto simp: list_all_iff)
  finally show ?thesis .
qed

lemma valid_names_varnames:
  assumes "valid_names typename names"
  shows "distinct (''_cls'' # names)"
proof -
  from assms have "\<forall>n \<in> set names. \<not> startswith_underscore n" and "distinct names"
    by (auto simp: valid_names_def list_all_iff)
  moreover have "startswith_underscore ''_cls''" by (simp add: startswith_underscore_def)
  ultimately show ?thesis by auto
qed

lemma namedtuple_defaults_tuple:
  "valid_names typename (field_list field_names) \<Longrightarrow>
   namedtuple_defaults typename field_names (PyTuple ds) h =
     (Inr (length h),
      h @ [\<lparr>cls_name = typename, cls_fields = field_list field_names, new_defaults = Some ds\<rparr>])"
  by (simp add: namedtuple_defaults_def namedtuple_def set_new_defaults_def validate_None [symmetric])

lemma namedtuple_defaults_Inr:
  assumes "namedtuple_defaults typename field_names defaults h = (Inr nt, h')"
  shows "nt = length h \<and> valid_names typename (field_list field_names) \<and>
         (\<exists>d. (defaults = PyNone \<and> d = None \<or> (\<exists>ds. defaults = PyTuple ds \<and> d = Some ds)) \<and>
              h' = h @ [\<lparr>cls_name = typename, cls_fields = field_list field_names,
                         new_defaults = d\<rparr>])"
  using assms
  by (auto simp: namedtuple_defaults_def namedtuple_def set_new_defaults_def Let_def
        validate_None [symmetric] split: option.splits pyobj.splits)

subsection \<open>Constructing an instance\<close>

lemma call_type_values:
  assumes live: "a < length h"
    and dist: "distinct (''_cls'' # cls_fields (h ! a))"
    and ok: "call_type h a args kws = Inr inst"
  shows "inst = Instance a (map (expected_value args kws (defaults_list (new_defaults (h ! a)))
                                    (cls_fields (h ! a)))
                               [0 ..< length (cls_fields (h ! a))])"
proof -
  define flds where "flds = cls_fields (h ! a)"
  define defs where "defs = defaults_list (new_defaults (h ! a))"
  define vn where "vn = ''_cls'' # flds"
  from ok live obtain ls cls vs where
    bind: "bind_args vn defs (PyType a # args) kws = Inr ls"
    and those: "those ls = Some (cls # vs)" and new: "tuple_new cls vs = Inr inst"
    unfolding call_type_def nt_new_def vn_def flds_def defs_def
    by (auto split: sum.splits option.splits list.splits)
  from dist have dvn: "distinct vn" by (simp add: vn_def flds_def)
  note slots = bind_args_slots [OF bind dvn]
  from those have ls: "ls = map Some (cls # vs)" by (rule those_map_Some)
  with slots(1) have len: "length vs = length flds" by (simp add: vn_def)
  from slots(3) [of 0] ls have "cls = PyType a" by (simp add: vn_def)
  with new have inst: "inst = Instance a vs" by (simp add: tuple_new_def)
  have "vs ! j = expected_value args kws defs flds j" if j: "j < length flds" for j
  proof -
    from j have "Suc j < length vn" by (simp add: vn_def)
    from slots(3) [OF this] ls j len
    have "vs ! j = (if j < length args then args ! j
                    else case map_of kws (flds ! j) of
                           Some v \<Rightarrow> v
                         | None \<Rightarrow> defs ! nat (int (Suc j) - (int (length vn) - int (length defs))))"
      by (simp add: vn_def)
    moreover have "nat (int (Suc j) - (int (length vn) - int (length defs)))
                   = j + length defs - length flds"
      by (simp add: vn_def)
    ultimately show ?thesis by (simp add: expected_value_def split: option.splits)
  qed
  with len have "vs = map (expected_value args kws defs flds) [0 ..< length flds]"
    by (intro nth_equalityI) simp_all
  with inst show ?thesis by (simp add: flds_def defs_def)
qed

lemma call_type_succeeds:
  assumes live: "a < length h"
    and dist: "distinct (''_cls'' # cls_fields (h ! a))"
    and le: "length args \<le> length (cls_fields (h ! a))"
    and keys: "distinct (map fst kws)"
    and known: "\<And>k. k \<in> fst ` set kws \<Longrightarrow>
                  \<exists>j. length args \<le> j \<and> j < length (cls_fields (h ! a)) \<and> cls_fields (h ! a) ! j = k"
    and covered: "\<And>j. length args \<le> j \<Longrightarrow> j < length (cls_fields (h ! a)) \<Longrightarrow>
                    cls_fields (h ! a) ! j \<notin> fst ` set kws \<Longrightarrow>
                    length (cls_fields (h ! a)) \<le> j + length (defaults_list (new_defaults (h ! a)))"
  shows "\<exists>inst. call_type h a args kws = Inr inst"
proof -
  define flds where "flds = cls_fields (h ! a)"
  define defs where "defs = defaults_list (new_defaults (h ! a))"
  define vn where "vn = ''_cls'' # flds"
  from dist have dvn: "distinct vn" by (simp add: vn_def flds_def)
  have "\<exists>ls. bind_args vn defs (PyType a # args) kws = Inr ls"
  proof (rule bind_args_succeeds [OF dvn])
    show "length (PyType a # args) \<le> length vn" using le by (simp add: vn_def flds_def)
    show "distinct (map fst kws)" by (rule keys)
  next
    fix k assume "k \<in> fst ` set kws"
    from known [OF this] obtain j where "length args \<le> j" "j < length flds" "flds ! j = k"
      unfolding flds_def by blast
    then have "length (PyType a # args) \<le> Suc j \<and> Suc j < length vn \<and> vn ! Suc j = k"
      by (simp add: vn_def)
    then show "\<exists>J. length (PyType a # args) \<le> J \<and> J < length vn \<and> vn ! J = k" by blast
  next
    fix J assume J: "length (PyType a # args) \<le> J" "J < length vn" "vn ! J \<notin> fst ` set kws"
    then obtain j where j: "J = Suc j" by (cases J) auto
    with J have "length args \<le> j" "j < length flds" "flds ! j \<notin> fst ` set kws"
      by (simp_all add: vn_def)
    from covered [folded flds_def defs_def, OF this] j
    show "int (length vn) - int (length defs) \<le> int J" by (simp add: vn_def)
  qed
  then obtain ls where bind: "bind_args vn defs (PyType a # args) kws = Inr ls" by blast
  note slots = bind_args_slots [OF bind dvn]
  have "those ls = Some (map the ls)"
  proof (rule those_all_Some)
    fix J assume "J < length ls"
    with slots(1) have "J < length vn" by simp
    from slots(3) [OF this] show "ls ! J \<noteq> None" by simp
  qed
  moreover from slots(1) obtain x xs where xs: "ls = x # xs" by (cases ls) (auto simp: vn_def)
  moreover from slots(3) [of 0] xs have "x = Some (PyType a)" by (simp add: vn_def)
  ultimately have "nt_new (h ! a) (PyType a # args) kws = Inr (Instance a (map the xs))"
    using bind unfolding nt_new_def vn_def flds_def defs_def by (simp add: tuple_new_def)
  with live show ?thesis by (simp add: call_type_def)
qed

lemma get_field_nth:
  assumes "inst_type inst < length h" and "distinct (cls_fields (h ! inst_type inst))"
    and "j < length (cls_fields (h ! inst_type inst))" and "j < length (inst_values inst)"
  shows "get_field h inst (cls_fields (h ! inst_type inst) ! j) = Some (inst_values inst ! j)"
  using assms by (simp add: get_field_def find_name_nth)

subsection \<open>Types made by the factory\<close>

lemma produced_store:
  assumes "valid_names typename (field_list field_names)"
    and "h' = snd (namedtuple_defaults typename field_names (PyTuple ds) h)"
  shows "fst (namedtuple_defaults typename field_names (PyTuple ds) h) = Inr (length h)"
    and "length h < length h'"
    and "cls_fields (h' ! length h) = field_list field_names"
    and "defaults_list (new_defaults (h' ! length h)) = ds"
    and "distinct (''_cls'' # cls_fields (h' ! length h))"
  using assms valid_names_varnames [OF assms(1)]
  by (simp_all add: namedtuple_defaults_tuple defaults_list_def)

lemma construct_trailing:
  assumes valid: "valid_names typename (field_list field_names)"
    and k: "k \<le> length ds"
    and supplied: "length args + length kws + k = length (field_list field_names)"
    and keys: "distinct (map fst kws)"
    and named: "set (map fst kws) =
                set (take (length kws) (drop (length args) (field_list field_names)))"
  shows "call_type (snd (namedtuple_defaults typename field_names (PyTuple ds) h)) (length h) args kws =
         Inr (Instance (length h)
               (args @
                map (\<lambda>f. the (map_of kws f))
                    (take (length kws) (drop (length args) (field_list field_names))) @
                drop (length ds - k) ds))"
proof -
  define flds where "flds = field_list field_names"
  define h' where "h' = snd (namedtuple_defaults typename field_names (PyTuple ds) h)"
  define p where "p = length args"
  define q where "q = length kws"
  note st = produced_store [OF valid h'_def, folded flds_def]
  have n: "p + q + k = length flds" using supplied by (simp add: p_def q_def flds_def)
  have dist: "distinct flds" using st(3,5) by simp
  have mid: "take q (drop p flds) ! i = flds ! (p + i)" if "i < q" for i
    using that n by simp
  have keyset: "fst ` set kws = set (take q (drop p flds))"
    using named by (simp add: p_def q_def flds_def)
  have len_mid: "length (take q (drop p flds)) = q" using n by simp
  have key_iff: "flds ! j \<in> fst ` set kws \<longleftrightarrow> p \<le> j \<and> j < p + q" if "j < length flds" for j
  proof
    assume "flds ! j \<in> fst ` set kws"
    then obtain i where i: "i < q" "take q (drop p flds) ! i = flds ! j"
      unfolding keyset in_set_conv_nth len_mid by blast
    with mid [of i] have "flds ! (p + i) = flds ! j" by simp
    with n that dist i(1) have "p + i = j" by (simp add: nth_eq_iff_index_eq)
    with i(1) show "p \<le> j \<and> j < p + q" by simp
  next
    assume j: "p \<le> j \<and> j < p + q"
    then have lt: "j - p < q" and pj: "p + (j - p) = j" by auto
    from mid [OF lt] pj have "take q (drop p flds) ! (j - p) = flds ! j" by simp
    moreover from lt have "j - p < length (take q (drop p flds))" using len_mid by simp
    ultimately show "flds ! j \<in> fst ` set kws" unfolding keyset by (metis nth_mem)
  qed
  have "\<exists>inst. call_type h' (length h) args kws = Inr inst"
  proof (rule call_type_succeeds [OF st(2) st(5)])
    show "length args \<le> length (cls_fields (h' ! length h))"
      using n st(3) by (simp add: p_def)
    show "distinct (map fst kws)" by (rule keys)
  next
    fix k' assume "k' \<in> fst ` set kws"
    then obtain i0 where "i0 < q" "take q (drop p flds) ! i0 = k'"
      unfolding keyset in_set_conv_nth len_mid by blast
    with mid [of i0] obtain i where "k' = flds ! i" "p \<le> i" "i < p + q"
      by (metis le_add1 nat_add_left_cancel_less)
    with n show "\<exists>j. length args \<le> j \<and> j < length (cls_fields (h' ! length h)) \<and>
                  cls_fields (h' ! length h) ! j = k'"
      unfolding st(3) p_def by (intro exI [of _ i]) simp
  next
    fix j assume j: "length args \<le> j" "j < length (cls_fields (h' ! length h))"
      "cls_fields (h' ! length h) ! j \<notin> fst ` set kws"
    then have "j < length flds" "\<not> (p \<le> j \<and> j < p + q)"
      using key_iff [of j] by (simp_all add: st(3))
    with j(1) n k show "length (cls_fields (h' ! length h))
                        \<le> j + length (defaults_list (new_defaults (h' ! length h)))"
      by (simp add: st(3,4) p_def)
  qed
  then obtain inst where ok: "call_type h' (length h) args kws = Inr inst" by blast
  from call_type_values [OF st(2) st(5) ok]
  have inst: "inst = Instance (length h)
                      (map (expected_value args kws ds flds) [0 ..< length flds])"
    by (simp add: st(3,4))
  define mids where "mids = map (\<lambda>f. the (map_of kws f)) (take q (drop p flds))"
  define rest where "rest = drop (length ds - k) ds"
  have lmids: "length mids = q" using len_mid by (simp add: mids_def)
  have lrest: "length rest = k" using k by (simp add: rest_def)
  have largs: "length args = p" by (simp add: p_def)
  have "map (expected_value args kws ds flds) [0 ..< length flds] = args @ mids @ rest"
  proof (rule nth_equalityI)
    show "length (map (expected_value args kws ds flds) [0 ..< length flds]) =
          length (args @ mids @ rest)"
      using n by (simp add: lmids lrest largs)
  next
    fix j assume "j < length (map (expected_value args kws ds flds) [0 ..< length flds])"
    then have j: "j < length flds" by simp
    consider (pos) "j < p" | (kw) "p \<le> j" "j < p + q" | (dflt) "p + q \<le> j" by linarith
    then have "expected_value args kws ds flds j = (args @ mids @ rest) ! j"
    proof cases
      case pos
      then show ?thesis by (simp add: expected_value_def largs nth_append)
    next
      case kw
      with key_iff [OF j] have "flds ! j \<in> fst ` set kws" by simp
      then obtain v where v: "map_of kws (flds ! j) = Some v"
        by (metis map_of_eq_None_iff not_Some_eq)
      from kw have lt: "j - p < q" and pj: "p + (j - p) = j" and np: "\<not> j < p" by auto
      from mid [OF lt] pj lt len_mid v have "mids ! (j - p) = v" by (simp add: mids_def)
      with lt np have "(args @ mids @ rest) ! j = v" by (simp add: nth_append largs lmids)
      with v np show ?thesis by (simp add: expected_value_def largs)
    next
      case dflt
      with key_iff [OF j] have "flds ! j \<notin> fst ` set kws" by simp
      then have none: "map_of kws (flds ! j) = None" by (simp add: map_of_eq_None_iff)
      from dflt have np: "\<not> j < p" and nq: "\<not> j - p < q" and sub: "j - p - q = j - (p + q)"
        by auto
      have "(args @ mids @ rest) ! j = rest ! (j - (p + q))"
        using np nq sub by (simp add: nth_append largs lmids)
      also have "\<dots> = ds ! (length ds - k + (j - (p + q)))"
        using k j n dflt by (simp add: rest_def)
      also have "length ds - k + (j - (p + q)) = j + length ds - length flds"
        using k j n dflt by simp
      finally show ?thesis using none np by (simp add: expected_value_def largs)
    qed
    with j show "map (expected_value args kws ds flds) [0 ..< length flds] ! j =
                 (args @ mids @ rest) ! j"
      by simp
  qed
  with inst ok show ?thesis by (simp add: h'_def flds_def p_def q_def mids_def rest_def)
qed


subsection \<open>A required field left out\<close>



subsection \<open>The single-string form of the field names\<close>

lemma split_Nil: "split [] = []"
  by (simp add: split.simps)

lemma split_skip:
  assumes "list_all isspace ws"
  shows "split (ws @ s) = split s"
proof -
  from assms have eq: "dropWhile isspace (ws @ s) = dropWhile isspace s"
    by (simp add: dropWhile_append2 list_all_iff)
  have "split (ws @ s) =
        (let s1 = dropWhile isspace (ws @ s)
         in if s1 = [] then []
            else takeWhile (\<lambda>c. \<not> isspace c) s1 # split (dropWhile (\<lambda>c. \<not> isspace c) s1))"
    by (rule split.simps)
  also have "\<dots> =
        (let s1 = dropWhile isspace s
         in if s1 = [] then []
            else takeWhile (\<lambda>c. \<not> isspace c) s1 # split (dropWhile (\<lambda>c. \<not> isspace c) s1))"
    by (simp only: eq)
  also have "\<dots> = split s" by (rule split.simps [symmetric])
  finally show ?thesis .
qed

lemma split_word:
  assumes ne: "w \<noteq> []" and word: "list_all (\<lambda>c. \<not> isspace c) w"
    and stop: "s = [] \<or> isspace (hd s)"
  shows "split (w @ s) = w # split s"
proof -
  from ne obtain c cs where w: "w = c # cs" by (cases w) auto
  with word have c: "\<not> isspace c" by simp
  have skip: "dropWhile isspace (w @ s) = w @ s" using w c by simp
  have tk0: "takeWhile (\<lambda>c. \<not> isspace c) s = []" using stop by (cases s) auto
  have dr0: "dropWhile (\<lambda>c. \<not> isspace c) s = s" using stop by (cases s) auto
  have tk: "takeWhile (\<lambda>c. \<not> isspace c) (w @ s) = w"
    using word tk0 by (simp add: takeWhile_append2 list_all_iff)
  have dr: "dropWhile (\<lambda>c. \<not> isspace c) (w @ s) = s"
    using word dr0 by (simp add: dropWhile_append2 list_all_iff)
  have "split (w @ s) =
        (let s1 = dropWhile isspace (w @ s)
         in if s1 = [] then []
            else takeWhile (\<lambda>c. \<not> isspace c) s1 # split (dropWhile (\<lambda>c. \<not> isspace c) s1))"
    by (rule split.simps)
  also have "\<dots> = w # split s"
    unfolding skip Let_def tk dr using ne by simp
  finally show ?thesis .
qed

lemma replace_commas_append: "replace_commas (a @ b) = replace_commas a @ replace_commas b"
  by (simp add: replace_commas_def)

lemma replace_commas_word:
  "list_all (\<lambda>c. \<not> is_delim c) w \<Longrightarrow> replace_commas w = w \<and> list_all (\<lambda>c. \<not> isspace c) w"
  by (induction w) (auto simp: replace_commas_def is_delim_def)

lemma replace_commas_delims: "list_all is_delim d \<Longrightarrow> list_all isspace (replace_commas d)"
  by (induction d) (auto simp: replace_commas_def is_delim_def isspace_def)

lemma split_join:
  assumes names: "list_all (\<lambda>n. n \<noteq> [] \<and> list_all (\<lambda>c. \<not> is_delim c) n) names"
    and sep: "sep \<noteq> []" "list_all is_delim sep"
    and ws: "list_all isspace ws"
  shows "split (replace_commas (join sep names) @ ws) = names"
  using names sep
proof (induction sep names rule: join.induct)
  case (1 sep)
  have "split ([] @ ws) = split (ws @ [])" by simp
  also have "\<dots> = []" using ws by (simp only: split_skip split_Nil)
  finally show ?case by (simp add: replace_commas_def)
next
  case (2 sep n)
  then have n: "n \<noteq> []" "replace_commas n = n" "list_all (\<lambda>c. \<not> isspace c) n"
    using replace_commas_word [of n] by simp_all
  have stop: "ws = [] \<or> isspace (hd ws)" using ws by (cases ws) auto
  have "split ws = []" using split_skip [OF ws, of "[]"] by (simp add: split_Nil)
  with split_word [OF n(1,3) stop] n(2) show ?case by simp
next
  case (3 sep n m ns)
  then have n: "n \<noteq> []" "replace_commas n = n" "list_all (\<lambda>c. \<not> isspace c) n"
    using replace_commas_word [of n] by simp_all
  from 3 have IH: "split (replace_commas (join sep (m # ns)) @ ws) = m # ns" by simp
  define rest where "rest = replace_commas (join sep (m # ns)) @ ws"
  from "3.prems" have sp: "list_all isspace (replace_commas sep)" "replace_commas sep \<noteq> []"
    by (simp_all add: replace_commas_delims) (simp add: replace_commas_def)
  then have stop: "replace_commas sep @ rest = [] \<or> isspace (hd (replace_commas sep @ rest))"
    by (cases "replace_commas sep") auto
  have "replace_commas (join sep (n # m # ns)) @ ws = n @ (replace_commas sep @ rest)"
    by (simp add: replace_commas_append n(2) rest_def)
  also have "split \<dots> = n # split (replace_commas sep @ rest)"
    by (rule split_word [OF n(1,3) stop])
  also have "split (replace_commas sep @ rest) = split rest" by (rule split_skip [OF sp(1)])
  finally show ?case using IH by (simp add: rest_def)
qed

lemma ident_continue_no_delim: "ident_continue c \<Longrightarrow> \<not> is_delim c"
  by (auto simp: ident_continue_def ident_start_def is_delim_def isspace_def)

lemma ident_start_no_delim: "ident_start c \<Longrightarrow> \<not> is_delim c"
  by (rule ident_continue_no_delim) (simp add: ident_continue_def)

lemma isidentifier_word:
  assumes "isidentifier n"
  shows "n \<noteq> [] \<and> list_all (\<lambda>c. \<not> is_delim c) n"
proof (cases n)
  case Nil
  with assms show ?thesis by (simp add: isidentifier_def)
next
  case (Cons c cs)
  with assms have "ident_start c" "\<forall>x \<in> set cs. ident_continue x"
    by (simp_all add: isidentifier_def list_all_iff)
  with Cons show ?thesis
    by (simp add: list_all_iff ident_start_no_delim ident_continue_no_delim)
qed

lemma field_list_join:
  assumes "list_all isidentifier names" and "sep \<noteq> []" and "list_all is_delim sep"
    and "list_all is_delim pre" and "list_all is_delim post"
  shows "field_list (NamesStr (pre @ join sep names @ post)) = names"
proof -
  have names: "list_all (\<lambda>n. n \<noteq> [] \<and> list_all (\<lambda>c. \<not> is_delim c) n) names"
    using assms(1) isidentifier_word unfolding list_all_iff by blast
  have "field_list (NamesStr (pre @ join sep names @ post)) =
        split (replace_commas pre @ (replace_commas (join sep names) @ replace_commas post))"
    by (simp add: replace_commas_append)
  also have "\<dots> = split (replace_commas (join sep names) @ replace_commas post)"
    by (rule split_skip [OF replace_commas_delims [OF assms(4)]])
  also have "\<dots> = names"
    by (rule split_join [OF names assms(2,3) replace_commas_delims [OF assms(5)]])
  finally show ?thesis .
qed

subsection \<open>Instances of a type made by the factory\<close>

lemma produced_instance:
  assumes valid: "valid_names typename (field_list field_names)"
    and h': "h' = snd (namedtuple_defaults typename field_names (PyTuple ds) h)"
    and made: "call_type h' (length h) args kws = Inr inst"
  shows "inst = Instance (length h)
                  (map (expected_value args kws ds (field_list field_names))
                       [0 ..< length (field_list field_names)])"
    and "j < length (field_list field_names) \<Longrightarrow>
         get_field h' inst (field_list field_names ! j) = Some (inst_values inst ! j)"
proof -
  note st = produced_store [OF valid h']
  from call_type_values [OF st(2) st(5) made]
  show inst: "inst = Instance (length h)
                  (map (expected_value args kws ds (field_list field_names))
                       [0 ..< length (field_list field_names)])"
    by (simp add: st(3,4))
  assume j: "j < length (field_list field_names)"
  have "get_field h' inst (cls_fields (h' ! inst_type inst) ! j) = Some (inst_values inst ! j)"
  proof (rule get_field_nth)
    show "inst_type inst < length h'" using inst st(2) by simp
    show "distinct (cls_fields (h' ! inst_type inst))" using inst st(5) by simp
    show "j < length (cls_fields (h' ! inst_type inst))" using inst st(3) j by simp
    show "j < length (inst_values inst)" using inst j by simp
  qed
  then show "get_field h' inst (field_list field_names ! j) = Some (inst_values inst ! j)"
    using inst st(3) by simp
qed

subsection \<open>The store of class objects\<close>

lemma set_new_defaults_frame:
  assumes "set_new_defaults a d h = (r, h2)"
  shows "length h2 = length h" and "b \<noteq> a \<Longrightarrow> h2 ! b = h ! b"
  using assms
  by (auto simp: set_new_defaults_def split: if_splits pyobj.splits)

lemma call_type_cong:
  "length h2 = length h \<Longrightarrow> h2 ! a = h ! a \<Longrightarrow> call_type h2 a args kws = call_type h a args kws"
  by (simp add: call_type_def)

lemma namedtuple_defaults_again:
  assumes "namedtuple_defaults typename field_names defaults h = (Inr a, h1)"
  shows "namedtuple_defaults typename field_names defaults g = (Inr (length g), g @ [h1 ! a])"
proof -
  from namedtuple_defaults_Inr [OF assms] obtain d where
    a: "a = length h" and valid: "valid_names typename (field_list field_names)"
    and d: "defaults = PyNone \<and> d = None \<or> (\<exists>ds. defaults = PyTuple ds \<and> d = Some ds)"
    and h1: "h1 = h @ [\<lparr>cls_name = typename, cls_fields = field_list field_names,
                         new_defaults = d\<rparr>]"
    by blast
  from a h1 have "h1 ! a = \<lparr>cls_name = typename, cls_fields = field_list field_names,
                             new_defaults = d\<rparr>"
    by simp
  moreover from valid d
  have "namedtuple_defaults typename field_names defaults g =
        (Inr (length g), g @ [\<lparr>cls_name = typename, cls_fields = field_list field_names,
                                new_defaults = d\<rparr>])"
    by (auto simp: namedtuple_defaults_def namedtuple_def set_new_defaults_def
          validate_None [symmetric])
  ultimately show ?thesis by simp
qed

section \<open>The claims\<close>

text \<open>
  C1. For valid names and a tuple of defaults no longer than the field list, the factory
  returns the type, and the type accepts every construction that omits \<open>k\<close> trailing
  fields, \<open>0 \<le> k \<le> len(defaults)\<close> (\<open>k = 0\<close>: all fields supplied), the other fields
  being given by position and then by keyword, in any order: the instance holds the
  supplied values and then the last \<open>k\<close> defaults, in order.
\<close>

theorem trailing_defaults:
  assumes "valid_names typename (field_list field_names)"
    and "length ds \<le> length (field_list field_names)"
    and "k \<le> length ds"
    and "length args + length kws + k = length (field_list field_names)"
    and "distinct (map fst kws)"
    and "set (map fst kws) =
         set (take (length kws) (drop (length args) (field_list field_names)))"
  shows "fst (namedtuple_defaults typename field_names (PyTuple ds) h) = Inr (length h) \<and>
         call_type (snd (namedtuple_defaults typename field_names (PyTuple ds) h)) (length h)
           args kws =
         Inr (Instance (length h)
               (args @
                map (\<lambda>f. the (map_of kws f))
                    (take (length kws) (drop (length args) (field_list field_names))) @
                drop (length ds - k) ds))"
  using produced_store(1) [OF assms(1) refl] construct_trailing [OF assms(1,3,4,5,6)]
  by simp

theorem trailing_defaults_witness:
  "valid_names ''T'' (field_list (NamesSeq [''a'', ''b'', ''c'', ''d''])) \<and>
   length [PyInt 10, PyInt 20] \<le> length (field_list (NamesSeq [''a'', ''b'', ''c'', ''d''])) \<and>
   (1::nat) \<le> length [PyInt 10, PyInt 20] \<and>
   fst (namedtuple_defaults ''T'' (NamesSeq [''a'', ''b'', ''c'', ''d''])
          (PyTuple [PyInt 10, PyInt 20]) []) = Inr 0 \<and>
   call_type (snd (namedtuple_defaults ''T'' (NamesSeq [''a'', ''b'', ''c'', ''d''])
                     (PyTuple [PyInt 10, PyInt 20]) [])) 0
     [PyInt 1] [(''c'', PyInt 3), (''b'', PyInt 2)] =
   Inr (Instance 0 [PyInt 1, PyInt 2, PyInt 3, PyInt 20])"
proof -
  have valid: "valid_names ''T'' (field_list (NamesSeq [''a'', ''b'', ''c'', ''d'']))"
    by code_simp
  have len: "length [PyInt 10, PyInt 20] \<le> length (field_list (NamesSeq [''a'', ''b'', ''c'', ''d'']))"
    by simp
  have k: "(1::nat) \<le> length [PyInt 10, PyInt 20]" by simp
  have supplied: "length [PyInt 1] + length [(''c'', PyInt 3), (''b'', PyInt 2)] + 1 =
                  length (field_list (NamesSeq [''a'', ''b'', ''c'', ''d'']))"
    by simp
  have keys: "distinct (map fst [(''c'', PyInt 3), (''b'', PyInt 2)])" by simp
  have named: "set (map fst [(''c'', PyInt 3), (''b'', PyInt 2)]) =
               set (take (length [(''c'', PyInt 3), (''b'', PyInt 2)])
                      (drop (length [PyInt 1]) (field_list (NamesSeq [''a'', ''b'', ''c'', ''d'']))))"
    by auto
  from trailing_defaults [OF valid len k supplied keys named, of "[]"] valid
  show ?thesis by simp
qed

text \<open>
  C2. The claim is that a tuple of defaults longer than the field list makes the factory
  fail. It does not: the setter of \<^verbatim>\<open>__defaults__\<close> stores a tuple of any length,
  and the binding aligns the defaults to the right end of the parameters. With three
  defaults for the two fields of Location the factory returns the type, and a
  construction without arguments takes the last two.
\<close>

theorem too_many_defaults_counterexample:
  "fst (namedtuple_defaults ''Location'' (NamesStr ''x y'')
          (PyTuple [PyInt 1, PyInt 2, PyInt 3]) []) = Inr 0 \<and>
   length [PyInt 1, PyInt 2, PyInt 3] > length (field_list (NamesStr ''x y'')) \<and>
   call_type (snd (namedtuple_defaults ''Location'' (NamesStr ''x y'')
                     (PyTuple [PyInt 1, PyInt 2, PyInt 3]) [])) 0 [] [] =
   Inr (Instance 0 [PyInt 2, PyInt 3])"
  by code_simp

text \<open>
  C2, as the code has it. For valid names and a tuple with more defaults than fields,
  the factory returns the type without an error, and the defaults are applied without
  an error too: every construction that omits \<open>k\<close> trailing fields, the others being
  given by position and then by keyword, succeeds, and the omitted fields take the
  last \<open>k\<close> entries of the defaults. The surplus leading entries are not used.
\<close>

theorem surplus_defaults_ignored:
  assumes "valid_names typename (field_list field_names)"
    and "length (field_list field_names) < length ds"
    and "length args + length kws + k = length (field_list field_names)"
    and "distinct (map fst kws)"
    and "set (map fst kws) =
         set (take (length kws) (drop (length args) (field_list field_names)))"
  shows "fst (namedtuple_defaults typename field_names (PyTuple ds) h) = Inr (length h) \<and>
         call_type (snd (namedtuple_defaults typename field_names (PyTuple ds) h)) (length h)
           args kws =
         Inr (Instance (length h)
               (args @
                map (\<lambda>f. the (map_of kws f))
                    (take (length kws) (drop (length args) (field_list field_names))) @
                drop (length ds - k) ds))"
proof -
  from assms(2,3) have "k \<le> length ds" by simp
  from produced_store(1) [OF assms(1) refl] construct_trailing [OF assms(1) this assms(3,4,5)]
  show ?thesis by simp
qed

theorem surplus_defaults_ignored_witness:
  "valid_names ''Location'' (field_list (NamesStr ''x y'')) \<and>
   length (field_list (NamesStr ''x y'')) < length [PyInt 1, PyInt 2, PyInt 3] \<and>
   fst (namedtuple_defaults ''Location'' (NamesStr ''x y'')
          (PyTuple [PyInt 1, PyInt 2, PyInt 3]) []) = Inr 0 \<and>
   call_type (snd (namedtuple_defaults ''Location'' (NamesStr ''x y'')
                     (PyTuple [PyInt 1, PyInt 2, PyInt 3]) [])) 0 [PyInt 5] [] =
   Inr (Instance 0 [PyInt 5, PyInt 3])"
proof -
  have fl: "field_list (NamesStr ''x y'') = [''x'', ''y'']" by code_simp
  have valid: "valid_names ''Location'' (field_list (NamesStr ''x y''))" by code_simp
  have more: "length (field_list (NamesStr ''x y'')) < length [PyInt 1, PyInt 2, PyInt 3]"
    by code_simp
  have supplied: "length [PyInt 5] + length ([] :: (string \<times> pyobj) list) + 1 =
                  length (field_list (NamesStr ''x y''))"
    unfolding fl by simp
  have keys: "distinct (map fst ([] :: (string \<times> pyobj) list))" by simp
  have named: "set (map fst ([] :: (string \<times> pyobj) list)) =
               set (take (length ([] :: (string \<times> pyobj) list))
                      (drop (length [PyInt 5]) (field_list (NamesStr ''x y''))))"
    by simp
  from surplus_defaults_ignored [OF valid more supplied keys named, of "[]"] valid more
  show ?thesis unfolding fl by simp
qed

text \<open>
  C3. The claim is that a sequence of any kind is accepted as the defaults. A list is
  not: the setter of \<^verbatim>\<open>__defaults__\<close> raises \<^verbatim>\<open>TypeError\<close> for anything but a
  tuple or \<^verbatim>\<open>None\<close>, so the factory fails on the list \<^verbatim>\<open>[0, 0]\<close>.
\<close>

theorem list_defaults_counterexample:
  "length [PyInt 0, PyInt 0] \<le> length (field_list (NamesStr ''x y'')) \<and>
   fst (namedtuple_defaults ''Location'' (NamesStr ''x y'') (PyList [PyInt 0, PyInt 0]) []) =
   Inl TypeError_defaults_not_tuple"
  by code_simp

text \<open>
  C3, as the code has it. For valid names, every tuple of values whose length is
  between 0 and the number of fields is accepted: the factory returns the new type,
  with these fields and these defaults. The same values as a list are rejected with
  the \<^verbatim>\<open>TypeError\<close> of the setter.
\<close>

theorem tuple_defaults_accepted:
  assumes "valid_names typename (field_list field_names)"
    and "length ds \<le> length (field_list field_names)"
  shows "namedtuple_defaults typename field_names (PyTuple ds) h =
           (Inr (length h),
            h @ [\<lparr>cls_name = typename, cls_fields = field_list field_names,
                   new_defaults = Some ds\<rparr>]) \<and>
         fst (namedtuple_defaults typename field_names (PyList ds) h) =
           Inl TypeError_defaults_not_tuple"
  using assms(1)
  by (simp add: namedtuple_defaults_def namedtuple_def set_new_defaults_def
        validate_None [symmetric])

theorem tuple_defaults_accepted_witness:
  "valid_names ''Site'' (field_list (NamesStr ''owner strength production'')) \<and>
   length [PyInt 0, PyInt 0, PyInt 0] \<le> length (field_list (NamesStr ''owner strength production'')) \<and>
   namedtuple_defaults ''Site'' (NamesStr ''owner strength production'')
     (PyTuple [PyInt 0, PyInt 0, PyInt 0]) [] =
     (Inr 0, [\<lparr>cls_name = ''Site'', cls_fields = [''owner'', ''strength'', ''production''],
               new_defaults = Some [PyInt 0, PyInt 0, PyInt 0]\<rparr>]) \<and>
   fst (namedtuple_defaults ''Site'' (NamesStr ''owner strength production'')
          (PyList [PyInt 0, PyInt 0, PyInt 0]) []) = Inl TypeError_defaults_not_tuple"
proof -
  have fl: "field_list (NamesStr ''owner strength production'')
            = [''owner'', ''strength'', ''production'']"
    by code_simp
  have valid: "valid_names ''Site'' (field_list (NamesStr ''owner strength production''))"
    by code_simp
  have le: "length [PyInt 0, PyInt 0, PyInt 0]
            \<le> length (field_list (NamesStr ''owner strength production''))"
    by code_simp
  from tuple_defaults_accepted [OF valid le, of "[]"] valid le
  show ?thesis unfolding fl by simp
qed




text \<open>
  C5. The type made by the factory with the name Location, the fields x and y and the
  defaults (0, 0): constructing with no arguments gives x = 0 and y = 0, constructing
  with only x = 5 (by keyword or by position) gives x = 5 and y = 0, constructing with
  x = 5 and y = 9 gives x = 5 and y = 9.
\<close>

theorem location_scenario:
  "fst Location = Inr 0 \<and>
   call_type (snd Location) 0 [] [] = Inr (Instance 0 [PyInt 0, PyInt 0]) \<and>
   get_field (snd Location) (Instance 0 [PyInt 0, PyInt 0]) ''x'' = Some (PyInt 0) \<and>
   get_field (snd Location) (Instance 0 [PyInt 0, PyInt 0]) ''y'' = Some (PyInt 0) \<and>
   call_type (snd Location) 0 [] [(''x'', PyInt 5)] = Inr (Instance 0 [PyInt 5, PyInt 0]) \<and>
   call_type (snd Location) 0 [PyInt 5] [] = Inr (Instance 0 [PyInt 5, PyInt 0]) \<and>
   get_field (snd Location) (Instance 0 [PyInt 5, PyInt 0]) ''x'' = Some (PyInt 5) \<and>
   get_field (snd Location) (Instance 0 [PyInt 5, PyInt 0]) ''y'' = Some (PyInt 0) \<and>
   call_type (snd Location) 0 [] [(''x'', PyInt 5), (''y'', PyInt 9)]
     = Inr (Instance 0 [PyInt 5, PyInt 9]) \<and>
   get_field (snd Location) (Instance 0 [PyInt 5, PyInt 9]) ''x'' = Some (PyInt 5) \<and>
   get_field (snd Location) (Instance 0 [PyInt 5, PyInt 9]) ''y'' = Some (PyInt 9)"
  by code_simp

text \<open>
  C6. The factory takes the field names as one string or as a sequence of strings. For
  valid names both forms are accepted and yield a type whose fields are exactly the
  names, in their order: the string is the names joined by any non-empty delimiter of
  white space and commas, with optional delimiters before and behind, and
  \<^verbatim>\<open>split\<close> cuts it back into the names. The two calls leave the same class
  definition in the store, so constructions on the two types behave alike; and whatever
  the defaults argument is, the two calls have the same outcome.
\<close>

theorem field_names_string_or_sequence:
  assumes "valid_names typename names" and "sep \<noteq> []" and "list_all is_delim sep"
    and "list_all is_delim pre" and "list_all is_delim post"
  shows "namedtuple_defaults typename (NamesStr (pre @ join sep names @ post)) (PyTuple ds) h =
           (Inr (length h),
            h @ [\<lparr>cls_name = typename, cls_fields = names, new_defaults = Some ds\<rparr>]) \<and>
         namedtuple_defaults typename (NamesSeq names) (PyTuple ds) h =
           (Inr (length h),
            h @ [\<lparr>cls_name = typename, cls_fields = names, new_defaults = Some ds\<rparr>]) \<and>
         call_type (snd (namedtuple_defaults typename (NamesStr (pre @ join sep names @ post))
                           (PyTuple ds) h)) (length h) args kws =
         call_type (snd (namedtuple_defaults typename (NamesSeq names) (PyTuple ds) h))
           (length h) args kws \<and>
         namedtuple_defaults typename (NamesStr (pre @ join sep names @ post)) defaults h =
         namedtuple_defaults typename (NamesSeq names) defaults h"
proof -
  from assms(1) have ids: "list_all isidentifier names"
    by (simp add: valid_names_def list_all_iff)
  have fl: "field_list (NamesStr (pre @ join sep names @ post)) = names"
    by (rule field_list_join [OF ids assms(2-5)])
  have fs: "field_list (NamesSeq names) = names" by simp
  have str: "namedtuple_defaults typename (NamesStr (pre @ join sep names @ post)) (PyTuple ds) h =
           (Inr (length h),
            h @ [\<lparr>cls_name = typename, cls_fields = names, new_defaults = Some ds\<rparr>])"
    using namedtuple_defaults_tuple [of typename "NamesStr (pre @ join sep names @ post)" ds h]
      assms(1) unfolding fl by simp
  have seq: "namedtuple_defaults typename (NamesSeq names) (PyTuple ds) h =
           (Inr (length h),
            h @ [\<lparr>cls_name = typename, cls_fields = names, new_defaults = Some ds\<rparr>])"
    using namedtuple_defaults_tuple [of typename "NamesSeq names" ds h] assms(1)
    unfolding fs by simp
  have "namedtuple typename (NamesStr (pre @ join sep names @ post)) h =
        namedtuple typename (NamesSeq names) h"
    unfolding namedtuple_def fl fs by (rule refl)
  then have any: "namedtuple_defaults typename (NamesStr (pre @ join sep names @ post)) defaults h =
                  namedtuple_defaults typename (NamesSeq names) defaults h"
    unfolding namedtuple_defaults_def by (simp only:)
  from str seq any show ?thesis by (simp only: simp_thms)
qed

theorem field_names_string_or_sequence_witness:
  "valid_names ''Location'' [''x'', ''y''] \<and> list_all is_delim '' '' \<and>
   namedtuple_defaults ''Location'' (NamesStr ''x y'') (PyTuple [PyInt 0, PyInt 0]) [] =
   (Inr 0, [\<lparr>cls_name = ''Location'', cls_fields = [''x'', ''y''],
             new_defaults = Some [PyInt 0, PyInt 0]\<rparr>]) \<and>
   namedtuple_defaults ''Location'' (NamesSeq [''x'', ''y'']) (PyTuple [PyInt 0, PyInt 0]) [] =
   (Inr 0, [\<lparr>cls_name = ''Location'', cls_fields = [''x'', ''y''],
             new_defaults = Some [PyInt 0, PyInt 0]\<rparr>])"
proof -
  have valid: "valid_names ''Location'' [''x'', ''y'']" by code_simp
  have sep: "'' '' \<noteq> []" by simp
  have delim: "list_all is_delim '' ''" by code_simp
  have none: "list_all is_delim []" by simp
  note both = field_names_string_or_sequence [OF valid sep delim none none,
      of "[PyInt 0, PyInt 0]" "[]" "[]" "[]" PyNone]
  have str: "namedtuple_defaults ''Location'' (NamesStr ''x y'') (PyTuple [PyInt 0, PyInt 0]) [] =
             (Inr 0, [\<lparr>cls_name = ''Location'', cls_fields = [''x'', ''y''],
                       new_defaults = Some [PyInt 0, PyInt 0]\<rparr>])"
    using conjunct1 [OF both] by simp
  have seq: "namedtuple_defaults ''Location'' (NamesSeq [''x'', ''y''])
               (PyTuple [PyInt 0, PyInt 0]) [] =
             (Inr 0, [\<lparr>cls_name = ''Location'', cls_fields = [''x'', ''y''],
                       new_defaults = Some [PyInt 0, PyInt 0]\<rparr>])"
    using conjunct1 [OF conjunct2 [OF both]] by simp
  from valid delim str seq show ?thesis by (simp only: simp_thms)
qed



text \<open>
  C8. A second invocation of the factory with the same arguments, from any store in
  which the first type is alive, returns a new class object: its address is not one of
  the store it started from (nothing is cached or reused) and differs from the first
  type's; it holds the same definition; the first type is left as it was and is used
  as before; and assigning new defaults to either of the two leaves the other and its
  constructions unchanged.
\<close>

theorem distinct_type_objects:
  assumes first: "namedtuple_defaults typename field_names defaults h = (Inr a1, h1)"
    and alive: "a1 < length g"
  shows "\<exists>a2 h2.
           namedtuple_defaults typename field_names defaults g = (Inr a2, h2) \<and>
           PyType a1 \<noteq> PyType a2 \<and> \<not> a2 < length g \<and>
           a1 < length h2 \<and> a2 < length h2 \<and>
           h2 ! a1 = g ! a1 \<and> h2 ! a2 = h1 ! a1 \<and>
           (\<forall>args kws. call_type h2 a1 args kws = call_type g a1 args kws) \<and>
           (\<forall>d r h3. set_new_defaults a2 d h2 = (r, h3) \<longrightarrow>
              h3 ! a1 = h2 ! a1 \<and>
              (\<forall>args kws. call_type h3 a1 args kws = call_type h2 a1 args kws)) \<and>
           (\<forall>d r h3. set_new_defaults a1 d h2 = (r, h3) \<longrightarrow>
              h3 ! a2 = h2 ! a2 \<and>
              (\<forall>args kws. call_type h3 a2 args kws = call_type h2 a2 args kws))"
proof -
  define a2 where "a2 = length g"
  define h2 where "h2 = g @ [h1 ! a1]"
  have second: "namedtuple_defaults typename field_names defaults g = (Inr a2, h2)"
    using namedtuple_defaults_again [OF first, of g] by (simp add: a2_def h2_def)
  have ne: "a1 \<noteq> a2" using alive by (simp add: a2_def)
  have live: "a1 < length h2" "a2 < length h2"
    using alive by (simp_all add: a2_def h2_def)
  have same1: "h2 ! a1 = g ! a1" using alive by (simp add: h2_def nth_append)
  have same2: "h2 ! a2 = h1 ! a1" by (simp add: h2_def a2_def)
  have use1: "call_type h2 a1 args kws = call_type g a1 args kws" for args kws
    using alive live same1 by (simp add: call_type_def)
  have alter2: "h3 ! a1 = h2 ! a1 \<and>
                (\<forall>args kws. call_type h3 a1 args kws = call_type h2 a1 args kws)"
    if "set_new_defaults a2 d h2 = (r, h3)" for d r h3
  proof -
    from set_new_defaults_frame(1) [OF that] set_new_defaults_frame(2) [OF that, of a1] ne
    have "length h3 = length h2" "h3 ! a1 = h2 ! a1" by simp_all
    then show ?thesis using call_type_cong [of h3 h2 a1] by blast
  qed
  have alter1: "h3 ! a2 = h2 ! a2 \<and>
                (\<forall>args kws. call_type h3 a2 args kws = call_type h2 a2 args kws)"
    if "set_new_defaults a1 d h2 = (r, h3)" for d r h3
  proof -
    from set_new_defaults_frame(1) [OF that] set_new_defaults_frame(2) [OF that, of a2] ne
    have "length h3 = length h2" "h3 ! a2 = h2 ! a2" by simp_all
    then show ?thesis using call_type_cong [of h3 h2 a2] by blast
  qed
  have ids: "PyType a1 \<noteq> PyType a2" using ne by simp
  have fresh: "\<not> a2 < length g" by (simp add: a2_def)
  show ?thesis
  proof (intro exI [of _ a2] exI [of _ h2] conjI allI impI)
    show "namedtuple_defaults typename field_names defaults g = (Inr a2, h2)" by (rule second)
    show "PyType a1 \<noteq> PyType a2" by (rule ids)
    show "\<not> a2 < length g" by (rule fresh)
    show "a1 < length h2" by (rule live(1))
    show "a2 < length h2" by (rule live(2))
    show "h2 ! a1 = g ! a1" by (rule same1)
    show "h2 ! a2 = h1 ! a1" by (rule same2)
    show "call_type h2 a1 args kws = call_type g a1 args kws" for args kws by (rule use1)
    show "h3 ! a1 = h2 ! a1" if "set_new_defaults a2 d h2 = (r, h3)" for d r h3
      using alter2 [OF that] by (rule conjunct1)
    show "call_type h3 a1 args kws = call_type h2 a1 args kws"
      if "set_new_defaults a2 d h2 = (r, h3)" for d r h3 args kws
      using alter2 [OF that] by blast
    show "h3 ! a2 = h2 ! a2" if "set_new_defaults a1 d h2 = (r, h3)" for d r h3
      using alter1 [OF that] by (rule conjunct1)
    show "call_type h3 a2 args kws = call_type h2 a2 args kws"
      if "set_new_defaults a1 d h2 = (r, h3)" for d r h3 args kws
      using alter1 [OF that] by blast
  qed
qed

theorem distinct_type_objects_witness:
  "fst Location = Inr 0 \<and> 0 < length (snd Location) \<and>
   (\<exists>a2 h2. namedtuple_defaults ''Location'' (NamesStr ''x y'') (PyTuple [PyInt 0, PyInt 0])
               (snd Location) = (Inr a2, h2) \<and>
            PyType 0 \<noteq> PyType a2 \<and> h2 ! a2 = snd Location ! 0 \<and> h2 ! 0 = snd Location ! 0)"
proof -
  have first: "namedtuple_defaults ''Location'' (NamesStr ''x y'') (PyTuple [PyInt 0, PyInt 0]) []
               = (Inr 0, snd Location)"
    by code_simp
  have loc: "fst Location = Inr 0" by code_simp
  have alive: "0 < length (snd Location)" by code_simp
  from distinct_type_objects [OF first alive] obtain a2 h2 where
    "namedtuple_defaults ''Location'' (NamesStr ''x y'') (PyTuple [PyInt 0, PyInt 0])
       (snd Location) = (Inr a2, h2)"
    "PyType 0 \<noteq> PyType a2" "h2 ! a2 = snd Location ! 0" "h2 ! 0 = snd Location ! 0"
    by blast
  then have "\<exists>a2 h2. namedtuple_defaults ''Location'' (NamesStr ''x y'') (PyTuple [PyInt 0, PyInt 0])
               (snd Location) = (Inr a2, h2) \<and>
            PyType 0 \<noteq> PyType a2 \<and> h2 ! a2 = snd Location ! 0 \<and> h2 ! 0 = snd Location ! 0"
    by blast
  with loc alive show ?thesis by blast
qed

text \<open>
  C10. In a type made by the factory, a field \<open>f\<close> that the defaults reach may be
  omitted also when fields declared after it are supplied by keyword: if \<open>f\<close> is not
  given by position, the keywords are distinct and name fields declared after \<open>f\<close>,
  and every other field left out is reached by the defaults too, the construction
  succeeds, \<open>f\<close> holds its bound default and the keyword fields hold their values.
  (Location made with the defaults (0, 0) and constructed with only y = 9 has x = 0.)
\<close>

theorem defaulted_field_skipped:
  assumes valid: "valid_names typename (field_list field_names)"
    and h': "h' = snd (namedtuple_defaults typename field_names (PyTuple ds) h)"
    and j: "j < length (field_list field_names)"
    and dflt: "length (field_list field_names) \<le> j + length ds"
    and nopos: "length args \<le> j"
    and keys: "distinct (map fst kws)"
    and later: "\<forall>k \<in> fst ` set kws. \<exists>i. j < i \<and> i < length (field_list field_names) \<and>
                                       field_list field_names ! i = k"
    and covered: "\<forall>i. length args \<le> i \<and> i < length (field_list field_names) \<and>
                      field_list field_names ! i \<notin> fst ` set kws \<longrightarrow>
                      length (field_list field_names) \<le> i + length ds"
  shows "\<exists>inst. call_type h' (length h) args kws = Inr inst \<and>
                get_field h' inst (field_list field_names ! j) =
                  Some (ds ! (j + length ds - length (field_list field_names))) \<and>
                (\<forall>k \<in> fst ` set kws. get_field h' inst k = map_of kws k)"
proof -
  define flds where "flds = field_list field_names"
  note st = produced_store [OF valid h', folded flds_def]
  have dist: "distinct flds" using st(3,5) by simp
  have nokey: "flds ! j \<notin> fst ` set kws"
  proof
    assume "flds ! j \<in> fst ` set kws"
    with later obtain i where i: "j < i" "i < length flds" "flds ! i = flds ! j"
      unfolding flds_def by blast
    with j dist have "i = j" by (simp add: nth_eq_iff_index_eq flds_def)
    with i(1) show False by simp
  qed
  have "\<exists>inst. call_type h' (length h) args kws = Inr inst"
  proof (rule call_type_succeeds [OF st(2) st(5)])
    show "length args \<le> length (cls_fields (h' ! length h))"
      using nopos j by (simp add: st(3) flds_def)
    show "distinct (map fst kws)" by (rule keys)
  next
    fix k assume "k \<in> fst ` set kws"
    with later obtain i where "j < i" "i < length flds" "flds ! i = k"
      unfolding flds_def by blast
    with nopos show "\<exists>i. length args \<le> i \<and> i < length (cls_fields (h' ! length h)) \<and>
                        cls_fields (h' ! length h) ! i = k"
      unfolding st(3) by (intro exI [of _ i]) simp
  next
    fix i assume "length args \<le> i" "i < length (cls_fields (h' ! length h))"
      "cls_fields (h' ! length h) ! i \<notin> fst ` set kws"
    with covered show "length (cls_fields (h' ! length h))
                       \<le> i + length (defaults_list (new_defaults (h' ! length h)))"
      unfolding st(3,4) flds_def by blast
  qed
  then obtain inst where made: "call_type h' (length h) args kws = Inr inst" by blast
  note made_inst = produced_instance [OF valid h' made, folded flds_def]
  have fval: "get_field h' inst (flds ! i) = Some (expected_value args kws ds flds i)"
    if "i < length flds" for i
    using made_inst(2) [of i] that made_inst(1) by (simp add: flds_def)
  from nokey have "map_of kws (flds ! j) = None" by (simp add: map_of_eq_None_iff)
  with nopos have "expected_value args kws ds flds j = ds ! (j + length ds - length flds)"
    by (simp add: expected_value_def)
  with fval [of j] j have fj: "get_field h' inst (flds ! j) = Some (ds ! (j + length ds - length flds))"
    by (simp add: flds_def)
  have fk: "get_field h' inst k = map_of kws k" if k: "k \<in> fst ` set kws" for k
  proof -
    from later k obtain i where i: "j < i" "i < length flds" "flds ! i = k"
      unfolding flds_def by blast
    from k obtain v where v: "map_of kws k = Some v"
      by (metis map_of_eq_None_iff not_Some_eq)
    from i nopos have "\<not> i < length args" by simp
    with v i have "expected_value args kws ds flds i = v" by (simp add: expected_value_def)
    with fval [OF i(2)] i(3) v show ?thesis by simp
  qed
  from made fj fk show ?thesis unfolding flds_def by blast
qed

theorem defaulted_field_skipped_witness:
  "valid_names ''Location'' (field_list (NamesStr ''x y'')) \<and>
   (\<exists>inst. call_type (snd Location) 0 [] [(''y'', PyInt 9)] = Inr inst \<and>
           get_field (snd Location) inst ''x'' = Some (PyInt 0) \<and>
           get_field (snd Location) inst ''y'' = Some (PyInt 9))"
proof -
  have fl: "field_list (NamesStr ''x y'') = [''x'', ''y'']" by code_simp
  have valid: "valid_names ''Location'' (field_list (NamesStr ''x y''))" by code_simp
  have h': "snd Location =
            snd (namedtuple_defaults ''Location'' (NamesStr ''x y'') (PyTuple [PyInt 0, PyInt 0]) [])"
    by (simp only: Location_def)
  have j: "0 < length (field_list (NamesStr ''x y''))" unfolding fl by simp
  have dflt: "length (field_list (NamesStr ''x y'')) \<le> 0 + length [PyInt 0, PyInt 0]"
    unfolding fl by simp
  have nopos: "length ([] :: pyobj list) \<le> 0" by simp
  have keys: "distinct (map fst [(''y'', PyInt 9)])" by simp
  have later: "\<forall>k \<in> fst ` set [(''y'', PyInt 9)].
                 \<exists>i. 0 < i \<and> i < length (field_list (NamesStr ''x y'')) \<and>
                     field_list (NamesStr ''x y'') ! i = k"
    unfolding fl by (auto intro: exI [of _ 1])
  have covered: "\<forall>i. length ([] :: pyobj list) \<le> i \<and> i < length (field_list (NamesStr ''x y'')) \<and>
                     field_list (NamesStr ''x y'') ! i \<notin> fst ` set [(''y'', PyInt 9)] \<longrightarrow>
                     length (field_list (NamesStr ''x y'')) \<le> i + length [PyInt 0, PyInt 0]"
    unfolding fl by simp
  from defaulted_field_skipped [OF valid h' j dflt nopos keys later covered]
  have "\<exists>inst. call_type (snd Location) 0 [] [(''y'', PyInt 9)] = Inr inst \<and>
               get_field (snd Location) inst ''x'' = Some (PyInt 0) \<and>
               get_field (snd Location) inst ''y'' = Some (PyInt 9)"
    unfolding fl by simp
  with valid show ?thesis by (rule conjI)
qed

end
